theory Spec2Isabelle
  imports Complex_Main "HOL-Library.Multiset"
begin

section \<open>threshold\_matrix.py: arrays, errors and the module namespace\<close>

text \<open>
  The script works on numpy arrays of floating-point weights. The only operations it
  applies to the weights are comparison, equality and the assignment of \<open>0\<close>, so a weight
  is modelled as a \<^typ>\<open>real\<close> (the order of the finite floats is the order of the reals
  they denote; NaN is left out).

  A numpy array is a shape together with a reference to a buffer. \<open>reshape\<close> of a
  contiguous array returns a view: a new shape on the same buffer. The buffers live in an
  explicit store, so that a write through one view is seen through every other one. The
  arrays that the driver passes around (\<open>np.loadtxt\<close>, \<open>np.triu\<close>) are freshly
  allocated row-major buffers, which is what the store models. Arrays that are created
  inside a function and never written to (\<open>np.sort\<close>, a slice, \<open>np.argwhere\<close>) are
  plain lists.
\<close>

datatype py_error = IndexError | NameError

type_synonym addr = nat
type_synonym store = "addr \<Rightarrow> real list"

record ndarray =
  base :: addr
  shape :: "nat list"

definition size_of :: "ndarray \<Rightarrow> nat" where
  "size_of A = prod_list (shape A)"

text \<open>\<open>A.reshape(-1)\<close> and \<open>A.reshape(s)\<close>: the same buffer under another shape.\<close>

definition reshape_flat :: "ndarray \<Rightarrow> ndarray" where
  "reshape_flat A = \<lparr>base = base A, shape = [size_of A]\<rparr>"

definition reshape :: "ndarray \<Rightarrow> nat list \<Rightarrow> ndarray" where
  "reshape A s = \<lparr>base = base A, shape = s\<rparr>"

text \<open>The data of an array, and the entry \<open>A[i, j]\<close> of a two-dimensional one (row-major).\<close>

definition data :: "store \<Rightarrow> ndarray \<Rightarrow> real list" where
  "data h A = h (base A)"

definition entry :: "store \<Rightarrow> ndarray \<Rightarrow> nat \<Rightarrow> nat \<Rightarrow> real" where
  "entry h A i j = data h A ! (i * (shape A ! 1) + j)"

text \<open>
  \<open>xs[i]\<close> and \<open>xs[i:]\<close> for a Python integer \<open>i\<close>: an index below zero is counted
  from the end of the list, and an index outside the list raises; the start of a slice is
  counted the same way, but one that falls outside the list is moved to its nearest end
  (\<open>drop\<close> and \<open>nat\<close> do that by themselves).
\<close>

definition py_index :: "'a list \<Rightarrow> int \<Rightarrow> py_error + 'a" where
  "py_index xs i =
     (if 0 \<le> i \<and> i < int (length xs) then Inr (xs ! nat i)
      else if - int (length xs) \<le> i \<and> i < 0 then Inr (xs ! nat (int (length xs) + i))
      else Inl IndexError)"

definition py_slice_from :: "'a list \<Rightarrow> int \<Rightarrow> 'a list" where
  "py_slice_from xs i =
     (if 0 \<le> i then drop (nat i) xs
      else drop (nat (int (length xs) + i)) xs)"

text \<open>\<open>np.argwhere(v == t)\<close> on a vector: the positions holding \<open>t\<close>, ascending.\<close>

definition argwhere_eq :: "real list \<Rightarrow> real \<Rightarrow> nat list" where
  "argwhere_eq v t = filter (\<lambda>p. v ! p = t) [0..<length v]"

text \<open>\<open>v[ps] = 0\<close> with an index array \<open>ps\<close>.\<close>

definition assign_zero :: "nat list \<Rightarrow> real list \<Rightarrow> real list" where
  "assign_zero ps v = fold (\<lambda>p w. w[p := 0]) ps v"

section \<open>threshold\_Mtriu\<close>

text \<open>
  \<open>np.random.shuffle\<close> is a library function; its outcome is the parameter \<open>shuffle\<close>,
  and every outcome is some rearrangement of the index array.
\<close>

definition is_shuffle :: "(nat list \<Rightarrow> nat list) \<Rightarrow> bool" where
  "is_shuffle shuffle \<longleftrightarrow> (\<forall>xs. mset (shuffle xs) = mset xs)"

text \<open>The cutoff of lines 63 and 65: \<open>np.sort(v)[-n_keep]\<close>.\<close>

definition thresh_of :: "real list \<Rightarrow> int \<Rightarrow> py_error + real" where
  "thresh_of v n_keep = py_index (sort v) (- n_keep)"

text \<open>
  The function body, line by line (the \<open>print\<close> statements, which only write the
  intermediate values to the terminal, are left out). The result is the returned array
  together with the store after the call.
\<close>

definition threshold_Mtriu ::
  "(nat list \<Rightarrow> nat list) \<Rightarrow> store \<Rightarrow> ndarray \<Rightarrow> int \<Rightarrow> py_error + (ndarray \<times> store)" where
  "threshold_Mtriu shuffle h M_triu n_keep =
     (let M_triu_unzip = reshape_flat M_triu;
          M_triu_unzip_sorted = sort (data h M_triu_unzip);
          keep_values = py_slice_from M_triu_unzip_sorted (- n_keep)
      in case thresh_of (data h M_triu_unzip) n_keep of
           Inl e \<Rightarrow> Inl e
         | Inr thresh \<Rightarrow>
            (let n_thresh_keep = length (filter (\<lambda>v. v = thresh) keep_values);
                 idx = shuffle (argwhere_eq (data h M_triu_unzip) thresh);
                 h' = h (base M_triu_unzip :=
                          assign_zero (drop n_thresh_keep idx) (data h M_triu_unzip));
                 thresh_M_triu = reshape M_triu_unzip (shape M_triu)
             in Inr (thresh_M_triu, h')))"

text \<open>
  The input the driver builds with \<open>np.triu(M, 1)\<close>: an \<open>n\<close> by \<open>n\<close> array whose
  diagonal and lower triangle are zero. In the row-major buffer the cell \<open>(i, j)\<close> is
  position \<open>i * n + j\<close>, so position \<open>p\<close> is in row \<open>p div n\<close> and column \<open>p mod n\<close>.
\<close>

definition upper :: "nat \<Rightarrow> nat \<Rightarrow> bool" where
  "upper n p \<longleftrightarrow> p div n < p mod n"

definition triu_positions :: "nat \<Rightarrow> nat list" where
  "triu_positions n = filter (upper n) [0..<n * n]"

definition triu_size :: "nat \<Rightarrow> nat" where
  "triu_size n = length (triu_positions n)"

definition candidates :: "nat \<Rightarrow> real list \<Rightarrow> real list" where
  "candidates n v = map (\<lambda>p. v ! p) (triu_positions n)"

definition triu_input :: "store \<Rightarrow> ndarray \<Rightarrow> nat \<Rightarrow> bool" where
  "triu_input h M n \<longleftrightarrow>
     shape M = [n, n] \<and> length (data h M) = n * n \<and>
     list_all (\<lambda>p. upper n p \<or> data h M ! p = 0) [0..<n * n]"

text \<open>
  The \<open>k\<close>-th largest value of a list, ties counted by value: the \<open>k\<close>-th element of the
  list sorted in descending order.
\<close>

definition kth_largest :: "real list \<Rightarrow> nat \<Rightarrow> real" where
  "kth_largest v k = rev (sort v) ! (k - 1)"

definition count_nonzero :: "real list \<Rightarrow> nat" where
  "count_nonzero v = length (filter (\<lambda>x. x \<noteq> 0) v)"

text \<open>The number of entries of a vector that are strictly greater than \<open>t\<close>.\<close>

definition n_gt :: "real list \<Rightarrow> real \<Rightarrow> nat" where
  "n_gt v t = length (filter (\<lambda>x. t < x) v)"

section \<open>save\_mat and save\_png\<close>

text \<open>
  Both writers look the name \<open>os\<close> up in the module's namespace before they do anything
  else (\<open>os.path.exists\<close>). The names the module binds on the way to the calls are its
  three imports (lines 15 to 17: \<open>numpy as np\<close>, \<open>matplotlib.pylab as plt\<close>,
  \<open>argparse\<close>), its four functions and the variables of the driver; there is no
  \<open>import os\<close>. A name that is not bound raises \<open>NameError\<close>.
\<close>

definition module_globals :: "string list" where
  "module_globals =
     [''np'', ''plt'', ''argparse'',
      ''setup_argparser'', ''threshold_Mtriu'', ''save_mat'', ''save_png'',
      ''arguments'', ''parser'', ''M_file'', ''n_keep'', ''M'', ''M_triu'', ''thr_M_triu'']"

definition lookup_global :: "string \<Rightarrow> py_error + unit" where
  "lookup_global name = (if name \<in> set module_globals then Inr () else Inl NameError)"

text \<open>
  The file system maps a path to what was written there. A matrix that is only read is
  the list of its rows; \<open>M[1:, 1:]\<close> drops the first row and the first column. How
  \<open>np.savetxt\<close> formats the numbers and how matplotlib renders the image is not
  modelled: a file holds the rows it was made from.
\<close>

datatype file_content = TextFile "real list list" | ImageFile "real list list"

type_synonym file_system = "string \<rightharpoonup> file_content"

definition drop_first :: "real list list \<Rightarrow> real list list" where
  "drop_first M = map tl (tl M)"

definition save_mat :: "file_system \<Rightarrow> real list list \<Rightarrow> string \<Rightarrow> py_error + file_system" where
  "save_mat fs M M_text_name =
     (case lookup_global ''os'' of
        Inl e \<Rightarrow> Inl e
      | Inr _ \<Rightarrow>
          if M_text_name \<notin> dom fs
          then Inr (fs (M_text_name \<mapsto> TextFile (drop_first M)))
          else Inr fs)"

definition save_png :: "file_system \<Rightarrow> real list list \<Rightarrow> string \<Rightarrow> py_error + file_system" where
  "save_png fs M M_fig_name =
     (case lookup_global ''os'' of
        Inl e \<Rightarrow> Inl e
      | Inr _ \<Rightarrow>
          if M_fig_name \<notin> dom fs
          then Inr (fs (M_fig_name \<mapsto> ImageFile (drop_first M)))
          else Inr fs)"

section \<open>Example inputs\<close>

text \<open>A 3 by 3 input with a tie at the top: candidates 5, 5 and 1.\<close>

definition tie_store :: store where
  "tie_store = (\<lambda>a. if a = 0 then [0, 5, 5, 0, 0, 1, 0, 0, 0] else [])"

definition tie_M :: ndarray where
  "tie_M = \<lparr>base = 0, shape = [3, 3]\<rparr>"

text \<open>
  The 3 by 3 input \<open>[[0, 1, 2], [0, 0, 3], [0, 0, 0]]\<close> with the distinct candidates
  1, 2 and 3.
\<close>

definition distinct_store :: store where
  "distinct_store = (\<lambda>a. if a = 0 then [0, 1, 2, 0, 0, 3, 0, 0, 0] else [])"

definition distinct_M :: ndarray where
  "distinct_M = \<lparr>base = 0, shape = [3, 3]\<rparr>"

text \<open>A 3 by 3 input with the candidates 5, 5 and 0.\<close>

definition pair_store :: store where
  "pair_store = (\<lambda>a. if a = 0 then [0, 5, 5, 0, 0, 0, 0, 0, 0] else [])"

definition pair_M :: ndarray where
  "pair_M = \<lparr>base = 0, shape = [3, 3]\<rparr>"

text \<open>A 3 by 3 input with a single non-zero candidate.\<close>

definition sparse_store :: store where
  "sparse_store = (\<lambda>a. if a = 0 then [0, 5, 0, 0, 0, 0, 0, 0, 0] else [])"

definition sparse_M :: ndarray where
  "sparse_M = \<lparr>base = 0, shape = [3, 3]\<rparr>"

text \<open>Inputs with negative weights: \<open>[[0, -1], [0, 0]]\<close> and
  \<open>[[0, -1, -2], [0, 0, -3], [0, 0, 0]]\<close>.\<close>

definition neg2_store :: store where
  "neg2_store = (\<lambda>a. if a = 0 then [0, - 1, 0, 0] else [])"

definition neg2_M :: ndarray where
  "neg2_M = \<lparr>base = 0, shape = [2, 2]\<rparr>"

definition neg3_store :: store where
  "neg3_store = (\<lambda>a. if a = 0 then [0, - 1, - 2, 0, 0, - 3, 0, 0, 0] else [])"

definition neg3_M :: ndarray where
  "neg3_M = \<lparr>base = 0, shape = [3, 3]\<rparr>"

text \<open>A file system in which both output files exist already.\<close>

definition old_fs :: file_system where
  "old_fs = [''out.txt'' \<mapsto> TextFile [[1]], ''out.png'' \<mapsto> ImageFile [[1]]]"

definition some_M :: "real list list" where
  "some_M = [[0, 1, 2], [0, 0, 3], [0, 0, 0]]"

section \<open>Lists, sorting and indexing\<close>

lemma length_assign_zero [simp]: "length (assign_zero ps v) = length v"
  unfolding assign_zero_def by (induction ps arbitrary: v) simp_all

lemma nth_assign_zero:
  "p < length v \<Longrightarrow> assign_zero ps v ! p = (if p \<in> set ps then 0 else v ! p)"
  unfolding assign_zero_def
proof (induction ps arbitrary: v)
  case Nil
  then show ?case by simp
next
  case (Cons q qs)
  have "fold (\<lambda>p w. w[p := 0]) qs (v[q := 0]) ! p =
        (if p \<in> set qs then 0 else v[q := 0] ! p)"
    using Cons.IH [of "v[q := 0]"] Cons.prems by simp
  then show ?case using Cons.prems by (auto simp: nth_list_update)
qed

lemma py_index_neg:
  "1 \<le> k \<Longrightarrow> k \<le> int (length xs) \<Longrightarrow> py_index xs (- k) = Inr (xs ! (length xs - nat k))"
  by (simp add: py_index_def Let_def nat_diff_distrib')

lemma py_index_isl:
  "isl (py_index xs (- k)) \<longleftrightarrow> k > int (length xs) \<or> k \<le> - int (length xs)"
  by (auto simp: py_index_def Let_def)

lemma py_slice_from_neg:
  "1 \<le> k \<Longrightarrow> k \<le> int (length xs) \<Longrightarrow> py_slice_from xs (- k) = drop (length xs - nat k) xs"
  by (simp add: py_slice_from_def Let_def nat_diff_distrib')

lemma length_filter_sort: "length (filter P (sort xs)) = length (filter P (xs::real list))"
proof -
  have "mset (filter P (sort xs)) = mset (filter P xs)"
    by (simp only: mset_filter mset_sort)
  then show ?thesis by (metis size_mset)
qed

lemma sorted_drop_ge:
  assumes "sorted s" "i < length s" "x \<in> set (drop i s)"
  shows "s ! i \<le> (x::real)"
proof -
  from assms(3) obtain j where "j < length (drop i s)" "x = drop i s ! j"
    by (auto simp: in_set_conv_nth)
  then have "x = s ! (i + j)" "i + j < length s" using assms(2) by auto
  then show ?thesis using assms(1) by (simp add: sorted_nth_mono)
qed

lemma sorted_take_le:
  assumes "sorted s" "i < length s" "x \<in> set (take i s)"
  shows "(x::real) \<le> s ! i"
proof -
  from assms(3) obtain j where "j < length (take i s)" "x = take i s ! j"
    by (auto simp: in_set_conv_nth)
  then have "x = s ! j" "j < i" by auto
  then show ?thesis using assms(1,2) by (simp add: sorted_nth_mono)
qed

lemma filter_gt_drop:
  assumes "sorted s" "i < length s"
  shows "filter (\<lambda>x. s ! i < x) s = filter (\<lambda>x. s ! i < (x::real)) (drop i s)"
proof -
  have "filter (\<lambda>x. s ! i < x) (take i s) = []"
    using sorted_take_le [OF assms] by (fastforce simp: filter_empty_conv)
  then have "filter (\<lambda>x. s ! i < x) (take i s @ drop i s) = filter (\<lambda>x. s ! i < x) (drop i s)"
    by (simp only: filter_append append_Nil)
  then show ?thesis by simp
qed

lemma count_eq_drop:
  assumes "sorted s" "i < length s"
  shows "length (filter (\<lambda>x. x = s ! i) (drop i s)) + length (filter (\<lambda>x. s ! i < (x::real)) s)
         = length s - i"
proof -
  have "filter (\<lambda>x. \<not> x = s ! i) (drop i s) = filter (\<lambda>x. s ! i < x) (drop i s)"
    using sorted_drop_ge [OF assms] by (intro filter_cong) fastforce+
  then have "length (filter (\<lambda>x. x = s ! i) (drop i s)) + length (filter (\<lambda>x. s ! i < x) (drop i s))
             = length (drop i s)"
    using sum_length_filter_compl [of "\<lambda>x. x = s ! i" "drop i s"] by simp
  then show ?thesis using filter_gt_drop [OF assms] by simp
qed

section \<open>The body of threshold\_Mtriu\<close>

lemma data_reshape_flat [simp]: "data h (reshape_flat M) = data h M"
  by (simp add: data_def reshape_flat_def)

lemma base_reshape_flat [simp]: "base (reshape_flat M) = base M"
  by (simp add: reshape_flat_def)

lemma length_argwhere_eq: "length (argwhere_eq v t) = length (filter (\<lambda>x. x = t) v)"
proof -
  have "filter (\<lambda>x. x = t) (map (\<lambda>p. v ! p) [0..<length v]) =
        map (\<lambda>p. v ! p) (filter (\<lambda>p. v ! p = t) [0..<length v])"
    by (simp add: filter_map comp_def)
  then have "length (filter (\<lambda>x. x = t) (map (\<lambda>p. v ! p) [0..<length v])) = length (argwhere_eq v t)"
    by (simp add: argwhere_eq_def)
  then show ?thesis by (simp add: map_nth)
qed

lemma set_argwhere_eq: "set (argwhere_eq v t) = {p. p < length v \<and> v ! p = t}"
  by (auto simp: argwhere_eq_def)

lemma distinct_argwhere_eq: "distinct (argwhere_eq v t)"
  by (simp add: argwhere_eq_def)

lemma tie_break:
  assumes sh: "is_shuffle sh" and n: "n \<le> length (filter (\<lambda>x. x = t) v)"
  defines "idx \<equiv> sh (argwhere_eq v t)"
  shows "set (take n idx) \<subseteq> {p. p < length v \<and> v ! p = t}"
    and "card (set (take n idx)) = n"
    and "p < length v \<Longrightarrow>
         assign_zero (drop n idx) v ! p = (if v ! p = t \<and> p \<notin> set (take n idx) then 0 else v ! p)"
proof -
  have ms: "mset idx = mset (argwhere_eq v t)"
    using sh by (simp add: is_shuffle_def idx_def)
  have set_idx: "set idx = {p. p < length v \<and> v ! p = t}"
    using ms set_argwhere_eq [of v t] by (metis set_mset_mset)
  have dist: "distinct idx"
    using ms distinct_argwhere_eq [of v t] by (metis mset_eq_imp_distinct_iff)
  have len: "length idx = length (filter (\<lambda>x. x = t) v)"
    using ms length_argwhere_eq [of v t] by (metis size_mset)
  show "set (take n idx) \<subseteq> {p. p < length v \<and> v ! p = t}"
    using set_take_subset [of n idx] set_idx by simp
  show "card (set (take n idx)) = n"
    using dist n len by (simp add: distinct_card)
  have split: "set (take n idx) \<union> set (drop n idx) = set idx"
    by (metis append_take_drop_id set_append)
  have disj: "set (take n idx) \<inter> set (drop n idx) = {}"
    using dist by (metis append_take_drop_id distinct_append)
  show "assign_zero (drop n idx) v ! p = (if v ! p = t \<and> p \<notin> set (take n idx) then 0 else v ! p)"
    if "p < length v"
  proof (cases "p \<in> set (drop n idx)")
    case True
    then have "p \<in> set idx" "p \<notin> set (take n idx)" using split disj by auto
    then show ?thesis using True that set_idx by (simp add: nth_assign_zero)
  next
    case False
    then have "v ! p = t \<Longrightarrow> p \<in> set (take n idx)" using split set_idx that by auto
    then show ?thesis using False that by (auto simp: nth_assign_zero)
  qed
qed

lemma keep_count:
  assumes "1 \<le> k" "k \<le> length v"
  shows "length (filter (\<lambda>x. x = sort v ! (length v - k)) (drop (length v - k) (sort v))) +
         n_gt v (sort v ! (length v - k)) = k"
proof -
  define i where "i = length v - k"
  define s where "s = sort v"
  have i: "i < length s" using assms by (simp add: i_def s_def)
  have srt: "sorted s" by (simp add: s_def)
  have li: "length s - i = k" using assms by (simp add: i_def s_def)
  have "length (filter (\<lambda>x. x = s ! i) (drop i s)) + length (filter (\<lambda>x. s ! i < x) s)
        = length s - i"
    by (rule count_eq_drop [OF srt i])
  moreover have "length (filter (\<lambda>x. s ! i < x) s) = n_gt v (s ! i)"
    unfolding n_gt_def s_def by (rule length_filter_sort)
  ultimately have "length (filter (\<lambda>x. x = s ! i) (drop i s)) + n_gt v (s ! i) = k"
    using li by simp
  then show ?thesis by (simp only: i_def s_def)
qed

lemma keep_count_le:
  "length (filter (\<lambda>x. x = t) (drop i (sort v))) \<le> length (filter (\<lambda>x. x = (t::real)) v)"
proof -
  have "length (filter (\<lambda>x. x = t) (drop i (sort v))) \<le>
        length (filter (\<lambda>x. x = t) (take i (sort v) @ drop i (sort v)))"
    by (simp only: filter_append length_append le_add2)
  then show ?thesis by (simp only: append_take_drop_id length_filter_sort)
qed

text \<open>
  What a call with \<open>1 \<le> n_keep \<le> size\<close> computes: the cutoff \<open>t\<close>, the new buffer
  \<open>res\<close> and the set \<open>K\<close> of the positions holding \<open>t\<close> that come first after the
  shuffle.
\<close>

lemma threshold_Mtriu_result:
  assumes sh: "is_shuffle sh" and k: "1 \<le> k" "k \<le> int (length (data h M))"
  obtains (result) t res K where
    "t = sort (data h M) ! (length (data h M) - nat k)"
    "thresh_of (data h M) k = Inr t"
    "threshold_Mtriu sh h M k = Inr (\<lparr>base = base M, shape = shape M\<rparr>, h (base M := res))"
    "length res = length (data h M)"
    "K \<subseteq> {p. p < length (data h M) \<and> data h M ! p = t}"
    "card K + n_gt (data h M) t = nat k"
    "card K \<le> length (filter (\<lambda>x. x = t) (data h M))"
    "\<And>p. p < length (data h M) \<Longrightarrow>
       res ! p = (if data h M ! p = t \<and> p \<notin> K then 0 else data h M ! p)"
    "\<And>sh'. sh' (argwhere_eq (data h M) t) = sh (argwhere_eq (data h M) t) \<Longrightarrow>
       threshold_Mtriu sh' h M k = Inr (\<lparr>base = base M, shape = shape M\<rparr>, h (base M := res))"
proof -
  define v where "v = data h M"
  define kn where "kn = nat k"
  define i where "i = length v - kn"
  define t where "t = sort v ! i"
  define n where "n = length (filter (\<lambda>x. x = t) (drop i (sort v)))"
  define res where "res = assign_zero (drop n (sh (argwhere_eq v t))) v"
  define K where "K = set (take n (sh (argwhere_eq v t)))"
  have kn: "1 \<le> kn" "kn \<le> length v" using k by (simp_all add: kn_def v_def)
  have idx: "py_index (sort v) (- k) = Inr t"
    using py_index_neg [of k "sort v"] k by (simp add: t_def i_def kn_def v_def)
  have th: "thresh_of v k = Inr t"
    using idx by (simp only: thresh_of_def)
  have keep: "py_slice_from (sort v) (- k) = drop i (sort v)"
    using py_slice_from_neg [of k "sort v"] k by (simp add: i_def kn_def v_def)
  have run: "threshold_Mtriu sh' h M k =
      Inr (\<lparr>base = base M, shape = shape M\<rparr>,
           h (base M := assign_zero (drop n (sh' (argwhere_eq v t))) v))" for sh'
    using th keep
    by (simp add: threshold_Mtriu_def Let_def reshape_def n_def flip: v_def)
  have cnt: "n + n_gt v t = kn"
    using keep_count [OF kn] by (simp only: n_def t_def i_def)
  have nle: "n \<le> length (filter (\<lambda>x. x = t) v)"
    unfolding n_def by (rule keep_count_le)
  note tb = tie_break [OF sh nle, folded K_def res_def]
  have "card K + n_gt v t = kn" using cnt tb(2) by simp
  moreover have "card K \<le> length (filter (\<lambda>x. x = t) v)" using nle tb(2) by simp
  moreover have "threshold_Mtriu sh' h M k = Inr (\<lparr>base = base M, shape = shape M\<rparr>, h (base M := res))"
    if "sh' (argwhere_eq v t) = sh (argwhere_eq v t)" for sh'
    using run [of sh'] that by (simp only: res_def)
  moreover have "threshold_Mtriu sh h M k = Inr (\<lparr>base = base M, shape = shape M\<rparr>, h (base M := res))"
    using run [of sh] by (simp only: res_def)
  moreover have "length res = length v" by (simp add: res_def)
  moreover have "t = sort v ! (length v - nat k)" by (simp only: t_def i_def kn_def)
  ultimately show thesis
    using th tb(1) tb(3)
    unfolding v_def kn_def by (intro result [of t res K]) assumption+
qed

section \<open>Valid inputs\<close>

lemma triu_size_le: "triu_size n \<le> n * n"
  using length_filter_le [of "upper n" "[0..<n * n]"]
  by (simp add: triu_size_def triu_positions_def)

lemma triu_input_length: "triu_input h M n \<Longrightarrow> length (data h M) = n * n"
  by (simp add: triu_input_def)

lemma triu_input_zero:
  "triu_input h M n \<Longrightarrow> p < n * n \<Longrightarrow> \<not> upper n p \<Longrightarrow> data h M ! p = 0"
  by (auto simp: triu_input_def list_all_iff)

lemma valid_keep:
  assumes "triu_input h M n" and "k \<le> int (triu_size n)"
  shows "k \<le> int (length (data h M))"
proof -
  have "int (triu_size n) \<le> int (n * n)"
    using triu_size_le [of n] by (simp only: of_nat_le_iff)
  then show ?thesis
    using assms by (simp only: triu_input_length)
qed

lemma data_result [simp]: "data (h (base M := res)) \<lparr>base = base M, shape = s\<rparr> = res"
  by (simp add: data_def)

section \<open>Failure of the call\<close>

lemma thresh_of_valid:
  "1 \<le> k \<Longrightarrow> k \<le> int (length v) \<Longrightarrow> thresh_of v k = Inr (sort v ! (length v - nat k))"
  using py_index_neg [of k "sort v"] by (simp add: thresh_of_def)

lemma threshold_Mtriu_isl:
  "isl (threshold_Mtriu sh h M k) \<longleftrightarrow>
     int (length (data h M)) < k \<or> k \<le> - int (length (data h M))"
  using py_index_isl [of "sort (data h M)" k]
  by (auto simp: threshold_Mtriu_def Let_def thresh_of_def split: sum.splits)

lemma py_index_error: "py_index xs i = Inl e \<Longrightarrow> e = IndexError"
  by (simp add: py_index_def split: if_splits)

lemma threshold_Mtriu_error: "threshold_Mtriu sh h M k = Inl e \<Longrightarrow> e = IndexError"
  using py_index_error [of "sort (data h M)" "- k" e]
  by (simp add: threshold_Mtriu_def Let_def thresh_of_def split: sum.splits)

section \<open>The size of the upper triangle\<close>

lemma cell_lt: "a < n \<Longrightarrow> b < n \<Longrightarrow> a * n + b < n * (n::nat)"
proof -
  assume a: "a < n" and b: "b < n"
  have "a * n + b < a * n + n" using b by simp
  also have "\<dots> = Suc a * n" by simp
  also have "\<dots> \<le> n * n" using a by (metis Suc_leI mult_le_mono1 mult.commute)
  finally show ?thesis .
qed

lemma length_filter_upt: "length (filter P [0..<N]) = card {p. p < N \<and> P p}"
proof -
  have "{i. i < length [0..<N] \<and> P ([0..<N] ! i)} = {p. p < N \<and> P p}" by auto
  then show ?thesis by (simp add: length_filter_conv_card)
qed

lemma triu_size_card: "triu_size n = card {p. p < n * n \<and> upper n p}"
  by (simp add: triu_size_def triu_positions_def length_filter_upt)

lemma triu_size_double: "2 * triu_size n \<le> n * n"
proof (cases "n = 0")
  case True
  then show ?thesis by (simp add: triu_size_def triu_positions_def)
next
  case False
  then have n: "0 < n" by simp
  let ?U = "{p. p < n * n \<and> upper n p}" and ?L = "{p. p < n * n \<and> \<not> upper n p}"
  let ?f = "\<lambda>p. (p mod n) * n + p div n"
  have dm: "?f p div n = p mod n \<and> ?f p mod n = p div n" if "p < n * n" for p
  proof -
    have "p div n < n" using that n by (simp add: less_mult_imp_div_less)
    then show ?thesis using n by simp
  qed
  have "inj_on ?f ?U"
  proof (rule inj_onI)
    fix p q assume "p \<in> ?U" "q \<in> ?U" "?f p = ?f q"
    then have "p mod n = q mod n" "p div n = q div n"
      using dm [of p] dm [of q] by auto
    then show "p = q" by (metis div_mult_mod_eq)
  qed
  moreover have "?f ` ?U \<subseteq> ?L"
  proof
    fix x assume "x \<in> ?f ` ?U"
    then obtain p where p: "p < n * n" "upper n p" "x = ?f p" by auto
    have "p div n < n" using p(1) n by (simp add: less_mult_imp_div_less)
    moreover have "p mod n < n" using n by simp
    ultimately have "x < n * n" using p(3) cell_lt by simp
    moreover have "\<not> upper n x" using dm [OF p(1)] p(2,3) by (simp add: upper_def)
    ultimately show "x \<in> ?L" by simp
  qed
  moreover have "finite ?L" by simp
  ultimately have "card ?U \<le> card ?L" by (rule card_inj_on_le)
  moreover have "card ?U + card ?L = n * n"
  proof -
    have un: "?U \<union> ?L = {..<n * n}" and int: "?U \<inter> ?L = {}" by auto
    have "card (?U \<union> ?L) = card ?U + card ?L"
      by (rule card_Un_disjoint [OF _ _ int]) simp_all
    then show ?thesis by (simp only: un card_lessThan)
  qed
  ultimately show ?thesis by (simp add: triu_size_card)
qed

text \<open>
  Positions and cells: in a valid \<open>n\<close> by \<open>n\<close> input the cell \<open>(i, j)\<close> is position
  \<open>i * n + j\<close> of the buffer, it lies above the diagonal exactly when \<open>upper\<close> holds
  of its position, and there are \<open>n (n - 1) / 2\<close> such cells.
\<close>

lemma cell_position:
  assumes "triu_input h M n" and "i < n" and "j < n"
  shows "entry h M i j = data h M ! (i * n + j)"
    and "i * n + j < n * n"
    and "upper n (i * n + j) \<longleftrightarrow> i < j"
proof -
  show "entry h M i j = data h M ! (i * n + j)"
    using assms(1) by (simp add: entry_def triu_input_def)
  show "i * n + j < n * n" using assms(2,3) by (rule cell_lt)
  show "upper n (i * n + j) \<longleftrightarrow> i < j"
    using assms(3) by (simp add: upper_def)
qed

lemma triu_size_closed: "triu_size n = n * (n - 1) div 2"
proof -
  let ?S = "Sigma {..<n} (\<lambda>j. {..<j})"
  let ?g = "\<lambda>(j, i). i * n + j"
  have inj: "inj_on ?g ?S"
  proof (rule inj_onI)
    fix x y assume x: "x \<in> ?S" and y: "y \<in> ?S" and eq: "?g x = ?g y"
    obtain j i where xi: "x = (j, i)" by (cases x)
    obtain j' i' where yi: "y = (j', i')" by (cases y)
    have lt: "j < n" "j' < n" using x y xi yi by auto
    have e: "i * n + j = i' * n + j'" using eq xi yi by simp
    have "(i * n + j) div n = i" "(i * n + j) mod n = j" using lt by simp_all
    moreover have "(i' * n + j') div n = i'" "(i' * n + j') mod n = j'" using lt by simp_all
    ultimately have "i = i'" "j = j'" using e by simp_all
    then show "x = y" using xi yi by simp
  qed
  have img: "?g ` ?S = {p. p < n * n \<and> upper n p}"
  proof (intro equalityI subsetI)
    fix p assume "p \<in> ?g ` ?S"
    then obtain j i where ji: "j < n" "i < j" "p = i * n + j" by auto
    then have "i < n" by simp
    then have "p < n * n" using ji cell_lt by simp
    moreover have "upper n p" using ji by (simp add: upper_def)
    ultimately show "p \<in> {p. p < n * n \<and> upper n p}" by simp
  next
    fix p assume "p \<in> {p. p < n * n \<and> upper n p}"
    then have p: "p < n * n" "p div n < p mod n" by (simp_all add: upper_def)
    then have n: "0 < n" by (cases n) simp_all
    then have "p mod n < n" by simp
    then have "(p mod n, p div n) \<in> ?S" using p(2) by simp
    moreover have "?g (p mod n, p div n) = p" by simp
    ultimately show "p \<in> ?g ` ?S" by (metis (no_types, lifting) image_eqI)
  qed
  have "card ?S = (\<Sum>j<n. j)" by simp
  also have "\<dots> = n * (n - 1) div 2"
  proof (cases n)
    case 0
    then show ?thesis by simp
  next
    case (Suc m)
    have "\<Sum>{..<Suc m} = \<Sum>{0..m}"
      by (simp only: lessThan_Suc_atMost atMost_atLeast0)
    then show ?thesis using Suc gauss_sum_nat [of m] by (simp add: mult.commute)
  qed
  finally have "card ?S = n * (n - 1) div 2" .
  moreover have "card (?g ` ?S) = card ?S" using inj by (rule card_image)
  ultimately show ?thesis by (simp only: triu_size_card img)
qed

section \<open>Counting entries\<close>

lemma count_split_positions:
  "length (filter P (map f ps)) =
   length (filter P (map f (filter U ps))) + length (filter P (map f (filter (\<lambda>p. \<not> U p) ps)))"
  by (induction ps) simp_all

lemma count_const:
  assumes "\<forall>p \<in> set ps. f p = c"
  shows "length (filter P (map f ps)) = (if P c then length ps else 0)"
  using assms by (induction ps) simp_all

text \<open>Counting in a vector that is zero outside the upper triangle.\<close>

lemma count_triu:
  assumes len: "length v = n * n"
    and zero: "\<forall>p < n * n. \<not> upper n p \<longrightarrow> v ! p = (0::real)"
  shows "length (filter P v) =
         length (filter P (candidates n v)) + (if P 0 then n * n - triu_size n else 0)"
proof -
  let ?ps = "[0..<n * n]"
  have v: "v = map (\<lambda>p. v ! p) ?ps"
    using len map_nth [of v] by simp
  have rest: "\<forall>p \<in> set (filter (\<lambda>p. \<not> upper n p) ?ps). v ! p = 0"
    using zero by simp
  have "length (filter (\<lambda>p. \<not> upper n p) ?ps) = n * n - triu_size n"
    using sum_length_filter_compl [of "upper n" ?ps]
    by (simp add: triu_size_def triu_positions_def)
  then have "length (filter P (map (\<lambda>p. v ! p) (filter (\<lambda>p. \<not> upper n p) ?ps)))
             = (if P 0 then n * n - triu_size n else 0)"
    using count_const [OF rest, of P] by simp
  moreover have "length (filter P (map (\<lambda>p. v ! p) ?ps)) =
     length (filter P (map (\<lambda>p. v ! p) (filter (upper n) ?ps))) +
     length (filter P (map (\<lambda>p. v ! p) (filter (\<lambda>p. \<not> upper n p) ?ps)))"
    by (rule count_split_positions)
  ultimately have "length (filter P (map (\<lambda>p. v ! p) ?ps)) =
     length (filter P (candidates n v)) + (if P 0 then n * n - triu_size n else 0)"
    by (simp add: candidates_def triu_positions_def)
  then show ?thesis using v by simp
qed

text \<open>The element at index \<open>i\<close> of a sorted list, by counting.\<close>

lemma sorted_nth_counts:
  assumes "sorted s" "i < length s"
  shows "length (filter (\<lambda>y. y < s ! i) s) \<le> i"
    and "i < length (filter (\<lambda>y. y \<le> (s ! i :: real)) s)"
proof -
  have s: "s = take i s @ drop i s" by simp
  have "filter (\<lambda>y. y < s ! i) (drop i s) = []"
    using sorted_drop_ge [OF assms] by (fastforce simp: filter_empty_conv)
  then have "filter (\<lambda>y. y < s ! i) (take i s @ drop i s) = filter (\<lambda>y. y < s ! i) (take i s)"
    by (simp only: filter_append append_Nil2)
  then have "length (filter (\<lambda>y. y < s ! i) s) \<le> length (take i s)"
    using length_filter_le [of "\<lambda>y. y < s ! i" "take i s"] by simp
  then show "length (filter (\<lambda>y. y < s ! i) s) \<le> i" by simp
  have s2: "s = take (Suc i) s @ drop (Suc i) s" by simp
  have le: "\<forall>y \<in> set (take (Suc i) s). y \<le> s ! i"
  proof
    fix y assume "y \<in> set (take (Suc i) s)"
    then obtain j where "j < Suc i" "j < length s" "y = s ! j"
      by (auto simp: in_set_conv_nth)
    then show "y \<le> s ! i" using assms by (simp add: sorted_nth_mono)
  qed
  then have "filter (\<lambda>y. y \<le> s ! i) (take (Suc i) s) = take (Suc i) s"
    by (simp add: filter_id_conv)
  then have "length (filter (\<lambda>y. y \<le> s ! i) (take (Suc i) s @ drop (Suc i) s)) \<ge> length (take (Suc i) s)"
    by (simp only: filter_append length_append)
  then show "i < length (filter (\<lambda>y. y \<le> s ! i) s)" using assms(2) by simp
qed

lemma sorted_nth_unique:
  assumes "sorted s" "i < length s"
    and lo: "length (filter (\<lambda>y. y < x) s) \<le> i"
    and hi: "i < length (filter (\<lambda>y. y \<le> (x::real)) s)"
  shows "s ! i = x"
proof (rule ccontr)
  assume ne: "s ! i \<noteq> x"
  note c = sorted_nth_counts [OF assms(1,2)]
  show False
  proof (cases "s ! i < x")
    case True
    have "length (filter (\<lambda>y. y \<le> s ! i) s) \<le> length (filter (\<lambda>y. y < x) s)"
    proof -
      have "filter (\<lambda>y. y \<le> s ! i) s = filter (\<lambda>y. y \<le> s ! i) (filter (\<lambda>y. y < x) s)"
        using True by (auto intro: filter_cong)
      then show ?thesis using length_filter_le [of "\<lambda>y. y \<le> s ! i" "filter (\<lambda>y. y < x) s"] by simp
    qed
    then show False using c(2) lo by simp
  next
    case False
    then have gt: "x < s ! i" using ne by simp
    have "length (filter (\<lambda>y. y \<le> x) s) \<le> length (filter (\<lambda>y. y < s ! i) s)"
    proof -
      have "filter (\<lambda>y. y \<le> x) s = filter (\<lambda>y. y \<le> x) (filter (\<lambda>y. y < s ! i) s)"
        using gt by (auto intro: filter_cong)
      then show ?thesis using length_filter_le [of "\<lambda>y. y \<le> x" "filter (\<lambda>y. y < s ! i) s"] by simp
    qed
    then show False using c(1) hi by simp
  qed
qed

lemma count_mono:
  "(\<And>y. P y \<Longrightarrow> Q y) \<Longrightarrow> length (filter P xs) \<le> length (filter Q xs)"
  by (induction xs) auto

lemma length_candidates [simp]: "length (candidates n v) = triu_size n"
  by (simp add: candidates_def triu_size_def)

lemma triu_input_zero_all:
  "triu_input h M n \<Longrightarrow> \<forall>p < n * n. \<not> upper n p \<longrightarrow> data h M ! p = 0"
  by (simp add: triu_input_zero)

lemma thresh_triu:
  assumes len: "length v = n * n"
    and zero: "\<forall>p < n * n. \<not> upper n p \<longrightarrow> v ! p = (0::real)"
    and k: "1 \<le> k" "k \<le> triu_size n"
  shows "sort v ! (n * n - k) = max 0 (sort (candidates n v) ! (triu_size n - k))"
proof -
  define cs where "cs = candidates n v"
  define T where "T = triu_size n"
  define N where "N = n * n"
  define j where "j = T - k"
  define i where "i = N - k"
  define c where "c = sort cs ! j"
  define x where "x = max 0 c"
  define m where "m = N - T"
  have TN: "2 * T \<le> N" unfolding T_def N_def by (rule triu_size_double)
  have lcs: "length cs = T" by (simp add: cs_def T_def)
  have j: "j < length (sort cs)" using k by (simp add: j_def lcs T_def)
  have ij: "i = j + m" using k TN by (simp add: i_def j_def m_def T_def)
  have jT: "j < T" using k by (simp add: j_def T_def)
  have mT: "T \<le> m" using TN by (simp add: m_def)
  have "length (filter (\<lambda>y. y < c) (sort cs)) \<le> j"
    unfolding c_def by (rule sorted_nth_counts(1) [OF _ j]) simp
  then have A: "length (filter (\<lambda>y. y < c) cs) \<le> j"
    by (simp only: length_filter_sort)
  have "j < length (filter (\<lambda>y. y \<le> c) (sort cs))"
    unfolding c_def by (rule sorted_nth_counts(2) [OF _ j]) simp
  then have B: "j < length (filter (\<lambda>y. y \<le> c) cs)"
    by (simp only: length_filter_sort)
  have cnt: "length (filter P v) = length (filter P cs) + (if P 0 then m else 0)" for P
    using count_triu [OF len zero, of P] by (simp only: cs_def m_def N_def T_def)
  have lo: "length (filter (\<lambda>y. y < x) v) \<le> i"
  proof (cases "0 < c")
    case True
    then have "x = c" by (simp add: x_def)
    then have "length (filter (\<lambda>y. y < x) v) = length (filter (\<lambda>y. y < c) cs) + m"
      using cnt [of "\<lambda>y. y < x"] True by simp
    then show ?thesis using A ij by linarith
  next
    case False
    then have "x = 0" by (simp add: x_def)
    then have "length (filter (\<lambda>y. y < x) v) = length (filter (\<lambda>y. y < x) cs)"
      using cnt [of "\<lambda>y. y < x"] by simp
    moreover have "length (filter (\<lambda>y. y < x) cs) \<le> T"
      using length_filter_le [of "\<lambda>y. y < x" cs] by (simp only: lcs)
    ultimately show ?thesis using ij mT by linarith
  qed
  have hi: "i < length (filter (\<lambda>y. y \<le> x) v)"
  proof -
    have "0 \<le> x" by (simp add: x_def)
    then have "length (filter (\<lambda>y. y \<le> x) v) = length (filter (\<lambda>y. y \<le> x) cs) + m"
      using cnt [of "\<lambda>y. y \<le> x"] by simp
    moreover have "length (filter (\<lambda>y. y \<le> c) cs) \<le> length (filter (\<lambda>y. y \<le> x) cs)"
      by (rule count_mono) (simp add: x_def)
    ultimately show ?thesis using B ij by linarith
  qed
  have i: "i < length (sort v)" using len k TN by (simp add: i_def N_def T_def)
  have "sort v ! i = x"
    by (rule sorted_nth_unique [OF _ i]) (simp_all add: lo hi length_filter_sort)
  then show ?thesis
    by (simp only: i_def N_def x_def c_def j_def T_def cs_def)
qed

section \<open>The cutoff of a valid input\<close>

lemma kth_largest_nth:
  "1 \<le> k \<Longrightarrow> k \<le> length v \<Longrightarrow> kth_largest v k = sort v ! (length v - k)"
  by (simp add: kth_largest_def rev_nth)

section \<open>Ties and counts\<close>

lemma count_eq_gt:
  "length (filter (\<lambda>x. x = t) v) + n_gt v t = length (filter (\<lambda>x. t \<le> (x::real)) v)"
  unfolding n_gt_def by (induction v) auto

lemma card_positions: "card {p. p < length v \<and> P (v ! p)} = length (filter P v)"
  by (simp add: length_filter_conv_card)

lemma sort_nth_0_Min:
  assumes "cs \<noteq> []"
  shows "sort cs ! 0 = Min (set (cs::real list))"
proof -
  have len: "0 < length (sort cs)" using assms by simp
  have "sort cs ! 0 \<in> set (sort cs)" using len by (rule nth_mem)
  then have mem: "sort cs ! 0 \<in> set cs" by simp
  have "sort cs ! 0 \<le> y" if "y \<in> set cs" for y
  proof -
    from that have "y \<in> set (sort cs)" by simp
    then obtain j where "j < length (sort cs)" "y = sort cs ! j"
      unfolding in_set_conv_nth by blast
    then show ?thesis using sorted_nth_mono [of "sort cs" 0 j] by simp
  qed
  then show ?thesis using mem by (intro Min_eqI [symmetric]) simp_all
qed

text \<open>With a positive cutoff and \<open>n_keep\<close> equal to the number of candidates, every
  position that holds the cutoff is kept.\<close>

lemma full_count_keeps_ties:
  assumes len: "length v = n * n"
    and zero: "\<forall>p < n * n. \<not> upper n p \<longrightarrow> v ! p = (0::real)"
    and t: "0 < t"
    and K: "K \<subseteq> {p. p < n * n \<and> v ! p = t}" "card K + n_gt v t = triu_size n"
  shows "K = {p. p < n * n \<and> v ! p = t}"
proof -
  have "length (filter (\<lambda>x. t \<le> x) v) =
        length (filter (\<lambda>x. t \<le> x) (candidates n v)) + (if t \<le> 0 then n * n - triu_size n else 0)"
    by (rule count_triu [OF len zero])
  then have "length (filter (\<lambda>x. t \<le> x) v) = length (filter (\<lambda>x. t \<le> x) (candidates n v))"
    using t by simp
  also have "\<dots> \<le> triu_size n"
    using length_filter_le [of "\<lambda>x. t \<le> x" "candidates n v"] by simp
  finally have "length (filter (\<lambda>x. x = t) v) + n_gt v t \<le> triu_size n"
    by (simp only: count_eq_gt)
  then have "length (filter (\<lambda>x. x = t) v) \<le> card K"
    using K(2) by linarith
  moreover have "card {p. p < n * n \<and> v ! p = t} = length (filter (\<lambda>x. x = t) v)"
    using card_positions [of v "\<lambda>x. x = t"] by (simp only: len)
  ultimately have "card {p. p < n * n \<and> v ! p = t} \<le> card K" by simp
  then show ?thesis
    using K(1) by (intro card_seteq) simp_all
qed

lemma count_at_least:
  assumes t: "0 < (t::real)"
    and len: "length res = length v"
    and K: "K \<subseteq> {p. p < length v \<and> v ! p = t}" "card K + n_gt v t = k"
    and res: "\<And>p. p < length v \<Longrightarrow> res ! p = (if v ! p = t \<and> p \<notin> K then 0 else v ! p)"
  shows "length (filter (\<lambda>x. t \<le> x) res) = k"
proof -
  let ?G = "{p. p < length v \<and> t < v ! p}"
  have "{p. p < length res \<and> t \<le> res ! p} = ?G \<union> K"
  proof (intro equalityI subsetI)
    fix p assume "p \<in> {p. p < length res \<and> t \<le> res ! p}"
    then have p: "p < length v" "t \<le> res ! p" using len by simp_all
    then show "p \<in> ?G \<union> K" using res [OF p(1)] t by (auto split: if_splits)
  next
    fix p assume "p \<in> ?G \<union> K"
    then have p: "p < length v" and "t < v ! p \<or> p \<in> K" using K(1) by auto
    then show "p \<in> {p. p < length res \<and> t \<le> res ! p}"
      using res [OF p] K(1) len by auto
  qed
  moreover have "?G \<inter> K = {}" using K(1) by auto
  moreover have "finite ?G" by simp
  moreover have "finite K" using K(1) by (rule finite_subset) simp
  ultimately have a: "card {p. p < length res \<and> t \<le> res ! p} = card ?G + card K"
    by (simp only: card_Un_disjoint)
  have b: "card ?G = n_gt v t"
    unfolding n_gt_def by (rule card_positions)
  have c: "card {p. p < length res \<and> t \<le> res ! p} = length (filter (\<lambda>x. t \<le> x) res)"
    by (rule card_positions)
  show ?thesis
    using a b c K(2) by linarith
qed

lemma candidates_nth:
  "x \<in> set (candidates n v) \<longleftrightarrow> (\<exists>p. p < n * n \<and> upper n p \<and> x = v ! p)"
  by (auto simp: candidates_def triu_positions_def)

section \<open>Facts about the example inputs\<close>

lemma is_shuffle_rev: "is_shuffle rev"
  by (simp add: is_shuffle_def)

lemma tie_input: "triu_input tie_store tie_M 3"
  by code_simp

lemma triu_size_3: "triu_size 3 = 3"
  by code_simp

lemma distinct_input: "triu_input distinct_store distinct_M 3"
  by code_simp

lemma pair_input: "triu_input pair_store pair_M 3"
  by code_simp

lemma neg3_input: "triu_input neg3_store neg3_M 3"
  by code_simp

lemma neg2_input: "triu_input neg2_store neg2_M 2"
  by code_simp

lemma triu_size_2: "triu_size 2 = 1"
  by code_simp

section \<open>How many entries survive\<close>

text \<open>
  Claim C1, as amended. For a valid input, a valid \<open>n_keep\<close> and every outcome of the
  shuffle, the call returns, and when the cutoff is positive exactly \<open>n_keep\<close> of the
  cells above the diagonal hold a value of at least the cutoff in the result. If moreover
  every candidate of the input that is below the cutoff is zero, these are the non-zero
  candidates of the result: there are exactly \<open>n_keep\<close> of them. Nothing is said here
  about candidates below the cutoff that are not zero.
\<close>

theorem keeps_n_keep_at_or_above_thresh:
  assumes "is_shuffle shuffle" and "triu_input h M_triu n"
    and "1 \<le> n_keep" and "n_keep \<le> int (triu_size n)"
  shows "\<exists>thresh A h'.
           thresh_of (data h M_triu) n_keep = Inr thresh \<and>
           threshold_Mtriu shuffle h M_triu n_keep = Inr (A, h') \<and>
           (0 < thresh \<longrightarrow>
              length (filter (\<lambda>x. thresh \<le> x) (candidates n (data h' A))) = nat n_keep) \<and>
           (0 < thresh \<and> (\<forall>c \<in> set (candidates n (data h M_triu)). c < thresh \<longrightarrow> c = 0) \<longrightarrow>
              count_nonzero (candidates n (data h' A)) = nat n_keep)"
proof -
  note k = valid_keep [OF assms(2,4)]
  note len = triu_input_length [OF assms(2)]
  note zero = triu_input_zero_all [OF assms(2)]
  show ?thesis
  proof (rule threshold_Mtriu_result [OF assms(1,3) k], goal_cases)
    case result: (1 t res K)
    define v where "v = data h M_triu"
    define kn where "kn = nat n_keep"
    let ?A = "\<lparr>base = base M_triu, shape = shape M_triu\<rparr>" and ?h' = "h (base M_triu := res)"
    have res: "data ?h' ?A = res" by (rule data_result)
    have lv: "length v = n * n" using len by (simp only: v_def)
    have lres: "length res = length v" using result(4) by (simp only: v_def)
    have K: "K \<subseteq> {p. p < length v \<and> v ! p = t}" using result(5) by (simp only: v_def)
    have card: "card K + n_gt v t = kn" using result(6) by (simp only: v_def kn_def)
    have nth: "res ! p = (if v ! p = t \<and> p \<notin> K then 0 else v ! p)" if "p < length v" for p
      using result(8) [of p] that by (simp only: v_def)
    have zv: "\<forall>p < n * n. \<not> upper n p \<longrightarrow> v ! p = 0" using zero by (simp only: v_def)
    have cnt: "length (filter (\<lambda>x. t \<le> x) (candidates n res)) = kn" if t: "0 < t"
    proof -
      have all: "length (filter (\<lambda>x. t \<le> x) res) = kn"
        by (rule count_at_least [OF t lres K card nth])
      have len_res: "length res = n * n" using lres lv by simp
      have "res ! p = 0" if "p < n * n" "\<not> upper n p" for p
      proof -
        have "v ! p = 0" using zv that by simp
        then show ?thesis using nth [of p] that(1) lv by simp
      qed
      then have "\<forall>p < n * n. \<not> upper n p \<longrightarrow> res ! p = 0" by simp
      then have "length (filter (\<lambda>x. t \<le> x) res) =
                 length (filter (\<lambda>x. t \<le> x) (candidates n res)) +
                 (if t \<le> 0 then n * n - triu_size n else 0)"
        by (rule count_triu [OF len_res])
      then have "length (filter (\<lambda>x. t \<le> x) res) =
                 length (filter (\<lambda>x. t \<le> x) (candidates n res))"
        using t by simp
      then show ?thesis using all by simp
    qed
    have nz: "count_nonzero (candidates n res) = kn"
      if t: "0 < t" and low: "\<forall>c \<in> set (candidates n v). c < t \<longrightarrow> c = 0"
    proof -
      have "(x \<noteq> 0) = (t \<le> x)" if "x \<in> set (candidates n res)" for x
      proof -
        from that obtain p where p: "p < n * n" "upper n p" "x = res ! p"
          unfolding candidates_nth by blast
        have "v ! p \<in> set (candidates n v)"
          unfolding candidates_nth using p(1,2) by blast
        then have "v ! p < t \<longrightarrow> v ! p = 0" using low by blast
        moreover have "res ! p = (if v ! p = t \<and> p \<notin> K then 0 else v ! p)"
          using nth [of p] p(1) lv by simp
        ultimately show ?thesis using t p(3) by (auto split: if_splits)
      qed
      then have "filter (\<lambda>x. x \<noteq> 0) (candidates n res) = filter (\<lambda>x. t \<le> x) (candidates n res)"
        by (intro filter_cong refl)
      then have "count_nonzero (candidates n res) = length (filter (\<lambda>x. t \<le> x) (candidates n res))"
        by (simp only: count_nonzero_def)
      then show ?thesis using cnt [OF t] by simp
    qed
    have "0 < t \<longrightarrow> length (filter (\<lambda>x. t \<le> x) (candidates n (data ?h' ?A))) = nat n_keep"
      using cnt by (simp only: res kn_def) blast
    moreover have "0 < t \<and> (\<forall>c \<in> set (candidates n (data h M_triu)). c < t \<longrightarrow> c = 0) \<longrightarrow>
              count_nonzero (candidates n (data ?h' ?A)) = nat n_keep"
      using nz by (simp only: res kn_def v_def) blast
    ultimately show ?thesis using result(2,3) by blast
  qed
qed

theorem keeps_n_keep_at_or_above_thresh_witness:
  "thresh_of (data pair_store pair_M) 1 = Inr 5 \<and>
   (\<exists>A h'. threshold_Mtriu rev pair_store pair_M 1 = Inr (A, h') \<and>
      length (filter (\<lambda>x. 5 \<le> x) (candidates 3 (data h' A))) = 1 \<and>
      count_nonzero (candidates 3 (data h' A)) = 1)"
proof -
  have k: "(1::int) \<le> int (triu_size 3)" by (simp add: triu_size_3)
  obtain thresh A h' where
    t: "thresh_of (data pair_store pair_M) 1 = Inr thresh" and
    r: "threshold_Mtriu rev pair_store pair_M 1 = Inr (A, h')" and
    c: "0 < thresh \<longrightarrow>
          length (filter (\<lambda>x. thresh \<le> x) (candidates 3 (data h' A))) = nat 1" and
    d: "0 < thresh \<and> (\<forall>c \<in> set (candidates 3 (data pair_store pair_M)). c < thresh \<longrightarrow> c = 0) \<longrightarrow>
          count_nonzero (candidates 3 (data h' A)) = nat 1"
    using keeps_n_keep_at_or_above_thresh [OF is_shuffle_rev pair_input order_refl k] by blast
  have five: "thresh_of (data pair_store pair_M) 1 = Inr 5" by code_simp
  then have th: "thresh = 5" using t by simp
  have "candidates 3 (data pair_store pair_M) = [5, 5, 0]" by code_simp
  then have "\<forall>c \<in> set (candidates 3 (data pair_store pair_M)). c < thresh \<longrightarrow> c = 0"
    using th by simp
  then show ?thesis using five r c d th by simp
qed

text \<open>
  Claim C1 as first stated (exactly \<open>n_keep\<close> non-zero entries among the cells above the
  diagonal) does not hold when fewer than \<open>n_keep\<close> of those cells are non-zero in the
  input: with the candidates 5, 0, 0 and \<open>n_keep = 2\<close> the result has one non-zero
  candidate.
\<close>

theorem fewer_than_n_keep_nonzero:
  "triu_input sparse_store sparse_M 3 \<and> triu_size 3 = 3 \<and>
   (case threshold_Mtriu (\<lambda>xs. xs) sparse_store sparse_M 2 of
      Inl e \<Rightarrow> False
    | Inr (A, h') \<Rightarrow> count_nonzero (candidates 3 (data h' A)) = 1)"
  by code_simp

section \<open>Entries below the cutoff\<close>

text \<open>
  Claim C2 says that every position whose value is strictly less than the cutoff is set to
  zero. The body only ever assigns to positions that hold the cutoff itself (line 81);
  nothing is assigned to the positions below it. On the input
  \<open>[[0, 1, 2], [0, 0, 3], [0, 0, 0]]\<close> with \<open>n_keep = 2\<close> the cutoff is 2, and the entry 1
  at row 0, column 1 is still 1 in the result: the result is the input.
\<close>

theorem below_thresh_not_zeroed:
  "triu_input distinct_store distinct_M 3 \<and>
   thresh_of (data distinct_store distinct_M) 2 = Inr 2 \<and>
   entry distinct_store distinct_M 0 1 = 1 \<and>
   (case threshold_Mtriu (\<lambda>xs. xs) distinct_store distinct_M 2 of
      Inl e \<Rightarrow> False
    | Inr (A, h') \<Rightarrow> entry h' A 0 1 = 1 \<and> data h' A = [0, 1, 2, 0, 0, 3, 0, 0, 0])"
  by code_simp

section \<open>The cutoff\<close>

text \<open>
  Claim C3, as amended. The function sorts the whole flattened matrix, the zeros on and
  below the diagonal included. For a valid input and \<open>1 \<le> n_keep \<le>\<close> the number of cells
  above the diagonal, the cutoff is the \<open>n_keep\<close>-th largest of all \<open>n * n\<close> entries;
  this is the \<open>n_keep\<close>-th largest candidate when that candidate is not negative, and
  zero otherwise.
\<close>

theorem thresh_is_kth_largest:
  assumes "triu_input h M_triu n" and "1 \<le> n_keep" and "n_keep \<le> int (triu_size n)"
  shows "thresh_of (data h M_triu) n_keep = Inr (kth_largest (data h M_triu) (nat n_keep)) \<and>
         kth_largest (data h M_triu) (nat n_keep) =
           max 0 (kth_largest (candidates n (data h M_triu)) (nat n_keep))"
proof -
  define v where "v = data h M_triu"
  define kn where "kn = nat n_keep"
  define cs where "cs = candidates n v"
  have len: "length v = n * n" using triu_input_length [OF assms(1)] by (simp only: v_def)
  have zero: "\<forall>p < n * n. \<not> upper n p \<longrightarrow> v ! p = 0"
    using triu_input_zero_all [OF assms(1)] by (simp only: v_def)
  have k: "1 \<le> kn" "kn \<le> triu_size n" using assms(2,3) by (simp_all add: kn_def)
  have kN: "kn \<le> length v" using k(2) triu_size_le [of n] len by simp
  have kT: "kn \<le> length cs" using k(2) by (simp add: cs_def)
  have "thresh_of v n_keep = Inr (sort v ! (length v - kn))"
    unfolding kn_def
    by (rule thresh_of_valid [OF assms(2)]) (use valid_keep [OF assms(1,3)] in \<open>simp only: v_def\<close>)
  also have "sort v ! (length v - kn) = kth_largest v kn"
    by (rule kth_largest_nth [OF k(1) kN, symmetric])
  finally have a: "thresh_of v n_keep = Inr (kth_largest v kn)" .
  have "sort v ! (n * n - kn) = max 0 (sort cs ! (triu_size n - kn))"
    unfolding cs_def by (rule thresh_triu [OF len zero k])
  moreover have "sort v ! (n * n - kn) = kth_largest v kn"
    using kth_largest_nth [OF k(1) kN] by (simp only: len)
  moreover have "sort cs ! (triu_size n - kn) = kth_largest cs kn"
    using kth_largest_nth [OF k(1) kT] by (simp add: cs_def)
  ultimately have b: "kth_largest v kn = max 0 (kth_largest cs kn)" by simp
  show ?thesis using a b by (simp only: v_def kn_def cs_def) 
qed

theorem thresh_is_kth_largest_witness:
  "thresh_of (data neg3_store neg3_M) 2 = Inr (kth_largest (data neg3_store neg3_M) (nat 2)) \<and>
   kth_largest (data neg3_store neg3_M) (nat 2) =
     max 0 (kth_largest (candidates 3 (data neg3_store neg3_M)) (nat 2))"
  by (rule thresh_is_kth_largest [OF neg3_input]) (simp_all add: triu_size_3)

text \<open>
  Claim C3 as first stated (the cutoff is the \<open>n_keep\<close>-th largest candidate) does not
  hold for negative weights: with the candidates -1, -2, -3 and \<open>n_keep = 2\<close> the second
  largest candidate is -2, and the cutoff is 0.
\<close>

theorem thresh_not_kth_largest_candidate:
  "triu_input neg3_store neg3_M 3 \<and>
   candidates 3 (data neg3_store neg3_M) = [- 1, - 2, - 3] \<and>
   kth_largest (candidates 3 (data neg3_store neg3_M)) 2 = - 2 \<and>
   thresh_of (data neg3_store neg3_M) 2 = Inr 0"
  by code_simp

section \<open>The tie-break\<close>

text \<open>
  Claim C4. For a valid input, a valid \<open>n_keep\<close> and every outcome of the shuffle, there
  is a set \<open>K\<close> of positions that hold the cutoff \<open>thresh\<close> in the input, of exactly
  \<open>n_keep\<close> minus the number of entries strictly greater than \<open>thresh\<close> elements,
  whose positions keep their input value, while every other position that holds
  \<open>thresh\<close> is set to zero.
\<close>

theorem tie_break_count:
  assumes "is_shuffle shuffle" and "triu_input h M_triu n"
    and "1 \<le> n_keep" and "n_keep \<le> int (triu_size n)"
  shows "\<exists>thresh A h' K.
           thresh_of (data h M_triu) n_keep = Inr thresh \<and>
           threshold_Mtriu shuffle h M_triu n_keep = Inr (A, h') \<and>
           K \<subseteq> {p. p < n * n \<and> data h M_triu ! p = thresh} \<and>
           int (card K) = n_keep - int (n_gt (data h M_triu) thresh) \<and>
           (\<forall>p \<in> K. data h' A ! p = data h M_triu ! p) \<and>
           (\<forall>p < n * n. data h M_triu ! p = thresh \<and> p \<notin> K \<longrightarrow> data h' A ! p = 0)"
proof -
  note k = valid_keep [OF assms(2,4)]
  note len = triu_input_length [OF assms(2)]
  show ?thesis
  proof (rule threshold_Mtriu_result [OF assms(1,3) k], goal_cases)
    case result: (1 t res K)
    let ?A = "\<lparr>base = base M_triu, shape = shape M_triu\<rparr>" and ?h' = "h (base M_triu := res)"
    have res: "data ?h' ?A = res" by (rule data_result)
    have sub: "K \<subseteq> {p. p < n * n \<and> data h M_triu ! p = t}"
      using result(5) by (simp only: len)
    have "int (card K + n_gt (data h M_triu) t) = n_keep"
      using assms(3) by (simp only: result(6))
    then have card: "int (card K) = n_keep - int (n_gt (data h M_triu) t)" by simp
    have kept: "res ! p = data h M_triu ! p" if "p \<in> K" for p
    proof -
      have "p < n * n" using sub that by blast
      then show ?thesis using result(8) [of p] that len by simp
    qed
    have zeroed: "res ! p = 0" if "p < n * n" "data h M_triu ! p = t" "p \<notin> K" for p
      using result(8) [of p] that len by simp
    have "\<forall>p \<in> K. data ?h' ?A ! p = data h M_triu ! p"
      using kept by (simp only: res) blast
    moreover have "\<forall>p < n * n. data h M_triu ! p = t \<and> p \<notin> K \<longrightarrow> data ?h' ?A ! p = 0"
      using zeroed by (simp only: res) blast
    ultimately show ?thesis using result(2,3) sub card by blast
  qed
qed

theorem tie_break_count_witness:
  "\<exists>thresh A h' K.
           thresh_of (data tie_store tie_M) 1 = Inr thresh \<and>
           threshold_Mtriu rev tie_store tie_M 1 = Inr (A, h') \<and>
           K \<subseteq> {p. p < 3 * 3 \<and> data tie_store tie_M ! p = thresh} \<and>
           int (card K) = 1 - int (n_gt (data tie_store tie_M) thresh) \<and>
           (\<forall>p \<in> K. data h' A ! p = data tie_store tie_M ! p) \<and>
           (\<forall>p < 3 * 3. data tie_store tie_M ! p = thresh \<and> p \<notin> K \<longrightarrow> data h' A ! p = 0)"
  by (rule tie_break_count [OF is_shuffle_rev tie_input]) (simp_all add: triu_size_3)

section \<open>When the call fails\<close>

text \<open>
  Claim C5, as amended. The function has no check of \<open>n_keep\<close>. The only statement that
  can fail is the indexing \<open>M_triu_unzip_sorted[-n_keep]\<close> of line 65, and it raises
  \<open>IndexError\<close> exactly when \<open>n_keep\<close> is greater than the number \<open>n * n\<close> of all
  cells of the matrix or at most \<open>- (n * n)\<close>. So every call on a 0 by 0 matrix fails, a
  1 by 1 matrix accepts \<open>n_keep = 1\<close>, and a count that is zero, slightly negative, or
  between the number of cells above the diagonal and \<open>n * n\<close> returns a matrix.
\<close>

theorem fails_iff_outside_buffer:
  assumes "triu_input h M_triu n"
  shows "(threshold_Mtriu shuffle h M_triu n_keep = Inl IndexError) =
           (int (n * n) < n_keep \<or> n_keep \<le> - int (n * n)) \<and>
         isl (threshold_Mtriu shuffle h M_triu n_keep) =
           (int (n * n) < n_keep \<or> n_keep \<le> - int (n * n))"
proof -
  have "threshold_Mtriu shuffle h M_triu n_keep = Inl IndexError \<longleftrightarrow>
        isl (threshold_Mtriu shuffle h M_triu n_keep)"
  proof (cases "threshold_Mtriu shuffle h M_triu n_keep")
    case (Inl e)
    then show ?thesis using threshold_Mtriu_error [OF Inl] by simp
  next
    case (Inr x)
    then show ?thesis by simp
  qed
  then show ?thesis
    using threshold_Mtriu_isl [of shuffle h M_triu n_keep] triu_input_length [OF assms]
    by simp
qed

theorem fails_iff_outside_buffer_witness:
  "(threshold_Mtriu rev tie_store tie_M 10 = Inl IndexError) =
           (int (3 * 3) < 10 \<or> (10::int) \<le> - int (3 * 3)) \<and>
         isl (threshold_Mtriu rev tie_store tie_M 10) =
           (int (3 * 3) < 10 \<or> (10::int) \<le> - int (3 * 3))"
  by (rule fails_iff_outside_buffer [OF tie_input])

text \<open>
  Claim C5 as first stated (failure exactly for \<open>n_keep \<le> 0\<close> or \<open>n_keep\<close> above the
  number of cells above the diagonal) does not hold: on a 3 by 3 input, which has three
  such cells, the calls with \<open>n_keep = 0\<close> and with \<open>n_keep = 4\<close> both return the
  matrix.
\<close>

theorem invalid_keep_count_accepted:
  "triu_size 3 = 3 \<and>
   (case threshold_Mtriu (\<lambda>xs. xs) tie_store tie_M 0 of
      Inl e \<Rightarrow> False | Inr (A, h') \<Rightarrow> data h' A = [0, 5, 5, 0, 0, 1, 0, 0, 0]) \<and>
   (case threshold_Mtriu (\<lambda>xs. xs) tie_store tie_M 4 of
      Inl e \<Rightarrow> False | Inr (A, h') \<Rightarrow> data h' A = [0, 5, 5, 0, 0, 1, 0, 0, 0])"
  by code_simp

section \<open>The argument after the call\<close>

text \<open>
  Claim C6, as amended. \<open>M_triu.reshape(-1)\<close> is a view, so the assignment of line 81
  writes into the buffer of the argument. For a valid input and a valid \<open>n_keep\<close> the
  call returns an array on the buffer of \<open>M_triu\<close> with the shape of \<open>M_triu\<close>; after
  the call the argument reads the same values as the returned array, and no other buffer
  of the store has changed. The outcome depends on the shuffle only through the order it
  gives to the positions that hold the cutoff.
\<close>

theorem works_in_place:
  assumes "is_shuffle shuffle" and "triu_input h M_triu n"
    and "1 \<le> n_keep" and "n_keep \<le> int (triu_size n)"
  shows "\<exists>thresh A h'.
           thresh_of (data h M_triu) n_keep = Inr thresh \<and>
           threshold_Mtriu shuffle h M_triu n_keep = Inr (A, h') \<and>
           base A = base M_triu \<and> shape A = shape M_triu \<and>
           data h' M_triu = data h' A \<and>
           (\<forall>a. a \<noteq> base M_triu \<longrightarrow> h' a = h a) \<and>
           (\<forall>shuffle'. shuffle' (argwhere_eq (data h M_triu) thresh) =
                         shuffle (argwhere_eq (data h M_triu) thresh) \<longrightarrow>
              threshold_Mtriu shuffle' h M_triu n_keep = Inr (A, h'))"
proof -
  note k = valid_keep [OF assms(2,4)]
  show ?thesis
  proof (rule threshold_Mtriu_result [OF assms(1,3) k], goal_cases)
    case result: (1 t res K)
    let ?A = "\<lparr>base = base M_triu, shape = shape M_triu\<rparr>" and ?h' = "h (base M_triu := res)"
    have "base ?A = base M_triu" "shape ?A = shape M_triu" by simp_all
    moreover have "data ?h' M_triu = data ?h' ?A" by (simp add: data_def)
    moreover have "\<forall>a. a \<noteq> base M_triu \<longrightarrow> ?h' a = h a" by simp
    moreover have "\<forall>shuffle'. shuffle' (argwhere_eq (data h M_triu) t) =
                         shuffle (argwhere_eq (data h M_triu) t) \<longrightarrow>
              threshold_Mtriu shuffle' h M_triu n_keep = Inr (?A, ?h')"
      using result(9) by blast
    ultimately show ?thesis using result(2,3) by blast
  qed
qed

theorem works_in_place_witness:
  "\<exists>thresh A h'.
      thresh_of (data tie_store tie_M) 1 = Inr thresh \<and>
      threshold_Mtriu rev tie_store tie_M 1 = Inr (A, h') \<and>
      base A = base tie_M \<and> shape A = shape tie_M \<and>
      data h' tie_M = data h' A \<and>
      (\<forall>a. a \<noteq> base tie_M \<longrightarrow> h' a = tie_store a) \<and>
      (\<forall>shuffle'. shuffle' (argwhere_eq (data tie_store tie_M) thresh) =
                    rev (argwhere_eq (data tie_store tie_M) thresh) \<longrightarrow>
         threshold_Mtriu shuffle' tie_store tie_M 1 = Inr (A, h'))"
  by (rule works_in_place [OF is_shuffle_rev tie_input]) (simp_all add: triu_size_3)

text \<open>
  Claim C6 as first stated (the argument is unchanged after the call) does not hold: with
  the candidates 5, 5 and 1 and \<open>n_keep = 1\<close>, one of the two entries 5 of the argument
  itself is zero after the call.
\<close>

theorem argument_is_overwritten:
  "data tie_store tie_M = [0, 5, 5, 0, 0, 1, 0, 0, 0] \<and>
   (case threshold_Mtriu rev tie_store tie_M 1 of
      Inl e \<Rightarrow> False
    | Inr (A, h') \<Rightarrow> data h' tie_M = [0, 0, 5, 0, 0, 1, 0, 0, 0])"
  by code_simp

section \<open>Entries above the cutoff\<close>

text \<open>
  Claim C7. For a valid input (an \<open>n\<close> by \<open>n\<close> array that is zero on and below the
  diagonal) and \<open>1 \<le> n_keep \<le>\<close> the number of cells above the diagonal, the call returns,
  and every position whose value is strictly greater than the cutoff \<open>thresh\<close> holds its
  input value in the result, whatever the shuffle does.
\<close>

theorem greater_than_thresh_kept:
  assumes "is_shuffle shuffle" and "triu_input h M_triu n"
    and "1 \<le> n_keep" and "n_keep \<le> int (triu_size n)"
  shows "\<exists>thresh A h'.
           thresh_of (data h M_triu) n_keep = Inr thresh \<and>
           threshold_Mtriu shuffle h M_triu n_keep = Inr (A, h') \<and>
           (\<forall>p < n * n. thresh < data h M_triu ! p \<longrightarrow> data h' A ! p = data h M_triu ! p)"
proof -
  note k = valid_keep [OF assms(2,4)]
  note len = triu_input_length [OF assms(2)]
  show ?thesis
  proof (rule threshold_Mtriu_result [OF assms(1,3) k], goal_cases)
    case result: (1 t res K)
    have "res ! p = data h M_triu ! p" if "p < n * n" "t < data h M_triu ! p" for p
      using result(8) [of p] that len by simp
    then have "\<forall>p < n * n. t < data h M_triu ! p \<longrightarrow>
        data (h (base M_triu := res)) \<lparr>base = base M_triu, shape = shape M_triu\<rparr> ! p =
        data h M_triu ! p"
      by (simp only: data_result) blast
    then show ?thesis using result(2,3) by blast
  qed
qed

theorem greater_than_thresh_kept_witness:
  "\<exists>thresh A h'.
      thresh_of (data distinct_store distinct_M) 2 = Inr thresh \<and>
      threshold_Mtriu rev distinct_store distinct_M 2 = Inr (A, h') \<and>
      (\<forall>p < 3 * 3. thresh < data distinct_store distinct_M ! p \<longrightarrow>
                     data h' A ! p = data distinct_store distinct_M ! p)"
  by (rule greater_than_thresh_kept [OF is_shuffle_rev distinct_input]) (simp_all add: triu_size_3)

section \<open>Keeping every candidate\<close>

text \<open>
  Claim C8, as amended. For a valid input with at least one cell above the diagonal and
  \<open>n_keep\<close> equal to the number of those cells, the call returns the argument and leaves
  the store as it was, whatever the shuffle does (so a second call does the same). The
  cutoff is the smallest candidate when that is not negative, and zero otherwise.
\<close>

theorem full_count_is_identity:
  assumes "is_shuffle shuffle" and "triu_input h M_triu n" and "1 \<le> triu_size n"
  shows "threshold_Mtriu shuffle h M_triu (int (triu_size n)) = Inr (M_triu, h) \<and>
         thresh_of (data h M_triu) (int (triu_size n)) =
           Inr (max 0 (Min (set (candidates n (data h M_triu)))))"
proof -
  define v where "v = data h M_triu"
  define T where "T = triu_size n"
  define cs where "cs = candidates n v"
  have len: "length v = n * n" using triu_input_length [OF assms(2)] by (simp only: v_def)
  have zero: "\<forall>p < n * n. \<not> upper n p \<longrightarrow> v ! p = 0"
    using triu_input_zero_all [OF assms(2)] by (simp only: v_def)
  have k1: "1 \<le> int (triu_size n)" using assms(3) by simp
  have k2: "int (triu_size n) \<le> int (length (data h M_triu))"
    by (rule valid_keep [OF assms(2)]) simp
  have T1: "1 \<le> T" using assms(3) by (simp only: T_def)
  have "sort v ! (n * n - T) = max 0 (sort cs ! (T - T))"
    unfolding cs_def T_def by (rule thresh_triu [OF len zero assms(3) order_refl])
  then have t0: "sort v ! (n * n - T) = max 0 (sort cs ! 0)" by simp
  have "cs \<noteq> []" using T1 by (auto simp: cs_def T_def dest: arg_cong [of _ _ length])
  then have "sort cs ! 0 = Min (set cs)" by (rule sort_nth_0_Min)
  then have tmin: "sort v ! (n * n - T) = max 0 (Min (set cs))" using t0 by simp
  show ?thesis
  proof (rule threshold_Mtriu_result [OF assms(1) k1 k2], goal_cases)
    case result: (1 t res K)
    have t: "t = sort v ! (n * n - T)"
      using result(1) by (simp only: nat_int v_def [symmetric] len T_def)
    have lres: "length res = n * n" using result(4) by (simp only: v_def [symmetric] len)
    have K: "K \<subseteq> {p. p < n * n \<and> v ! p = t}"
      using result(5) by (simp only: v_def [symmetric] len)
    have card: "card K + n_gt v t = triu_size n"
      using result(6) by (simp only: nat_int v_def [symmetric])
    have nth: "res ! p = (if v ! p = t \<and> p \<notin> K then 0 else v ! p)" if "p < n * n" for p
      using result(8) [of p] that by (simp only: v_def [symmetric] len)
    have "res ! p = v ! p" if p: "p < n * n" for p
    proof (cases "t = 0")
      case True
      then show ?thesis using nth [OF p] by simp
    next
      case False
      then have "0 < t" using t tmin by (simp add: max_def split: if_splits)
      then have "K = {p. p < n * n \<and> v ! p = t}"
        by (rule full_count_keeps_ties [OF len zero _ K card])
      then show ?thesis using nth [OF p] p by simp
    qed
    then have "res = v"
      using lres len by (simp add: list_eq_iff_nth_eq)
    then have "h (base M_triu := res) = h"
      by (simp add: v_def data_def)
    then have "threshold_Mtriu shuffle h M_triu (int (triu_size n)) = Inr (M_triu, h)"
      using result(3) by simp
    moreover have "thresh_of (data h M_triu) (int (triu_size n)) = Inr (max 0 (Min (set cs)))"
      using result(2) t tmin by simp
    ultimately show ?thesis by (simp only: cs_def v_def)
  qed
qed

theorem full_count_is_identity_witness:
  "threshold_Mtriu rev neg2_store neg2_M (int (triu_size 2)) = Inr (neg2_M, neg2_store) \<and>
   thresh_of (data neg2_store neg2_M) (int (triu_size 2)) =
     Inr (max 0 (Min (set (candidates 2 (data neg2_store neg2_M)))))"
  by (rule full_count_is_identity [OF is_shuffle_rev neg2_input]) (simp add: triu_size_2)

text \<open>
  Claim C8 as first stated includes that the cutoff is the smallest candidate. With the
  single candidate -1 and \<open>n_keep = 1\<close> the cutoff is 0.
\<close>

theorem thresh_not_minimum:
  "triu_input neg2_store neg2_M 2 \<and> triu_size 2 = 1 \<and>
   candidates 2 (data neg2_store neg2_M) = [- 1] \<and>
   thresh_of (data neg2_store neg2_M) 1 = Inr 0"
  by code_simp

section \<open>The writers\<close>

text \<open>
  Claim C9 says that \<open>save_mat\<close> and \<open>save_png\<close> skip silently, without an error, when
  the target exists. Both evaluate \<open>os.path.exists\<close> first, and the module never imports
  \<open>os\<close>: with the target files present, each call raises \<open>NameError\<close> (nothing is
  written, but the call is not a silent skip).
\<close>

theorem writers_raise_NameError:
  "''out.txt'' \<in> dom old_fs \<and> ''out.png'' \<in> dom old_fs \<and>
   save_mat old_fs some_M ''out.txt'' = Inl NameError \<and>
   save_png old_fs some_M ''out.png'' = Inl NameError"
  by (simp add: save_mat_def save_png_def lookup_global_def module_globals_def old_fs_def)

section \<open>What the call changes\<close>

text \<open>
  Claim C10. For a valid input and a valid \<open>n_keep\<close> the call returns, and every position
  of the result either holds its input value or held the cutoff \<open>thresh\<close> in the input
  and holds zero now. Hence every non-zero entry of the result equals its input value.
\<close>

theorem only_thresh_positions_zeroed:
  assumes "is_shuffle shuffle" and "triu_input h M_triu n"
    and "1 \<le> n_keep" and "n_keep \<le> int (triu_size n)"
  shows "\<exists>thresh A h'.
           thresh_of (data h M_triu) n_keep = Inr thresh \<and>
           threshold_Mtriu shuffle h M_triu n_keep = Inr (A, h') \<and>
           length (data h' A) = n * n \<and>
           (\<forall>p < n * n. data h' A ! p = data h M_triu ! p \<or>
                        (data h M_triu ! p = thresh \<and> data h' A ! p = 0)) \<and>
           (\<forall>p < n * n. data h' A ! p \<noteq> 0 \<longrightarrow> data h' A ! p = data h M_triu ! p)"
proof -
  note k = valid_keep [OF assms(2,4)]
  note len = triu_input_length [OF assms(2)]
  show ?thesis
  proof (rule threshold_Mtriu_result [OF assms(1,3) k], goal_cases)
    case result: (1 t res K)
    let ?A = "\<lparr>base = base M_triu, shape = shape M_triu\<rparr>" and ?h' = "h (base M_triu := res)"
    have res: "data ?h' ?A = res" by (rule data_result)
    have p: "res ! p = data h M_triu ! p \<or> (data h M_triu ! p = t \<and> res ! p = 0)"
      if "p < n * n" for p
      using result(8) [of p] that len by simp
    have "length (data ?h' ?A) = n * n"
      using result(4) len by (simp only: res)
    moreover have "\<forall>p < n * n. data ?h' ?A ! p = data h M_triu ! p \<or>
                        (data h M_triu ! p = t \<and> data ?h' ?A ! p = 0)"
      using p by (simp only: res) blast
    moreover have "\<forall>p < n * n. data ?h' ?A ! p \<noteq> 0 \<longrightarrow> data ?h' ?A ! p = data h M_triu ! p"
      using p by (simp only: res) blast
    ultimately show ?thesis using result(2,3) by blast
  qed
qed

theorem only_thresh_positions_zeroed_witness:
  "\<exists>thresh A h'.
           thresh_of (data tie_store tie_M) 1 = Inr thresh \<and>
           threshold_Mtriu rev tie_store tie_M 1 = Inr (A, h') \<and>
           length (data h' A) = 3 * 3 \<and>
           (\<forall>p < 3 * 3. data h' A ! p = data tie_store tie_M ! p \<or>
                        (data tie_store tie_M ! p = thresh \<and> data h' A ! p = 0)) \<and>
           (\<forall>p < 3 * 3. data h' A ! p \<noteq> 0 \<longrightarrow> data h' A ! p = data tie_store tie_M ! p)"
  by (rule only_thresh_positions_zeroed [OF is_shuffle_rev tie_input]) (simp_all add: triu_size_3)

end
